theory Spec2Isabelle
  imports Main "HOL-Library.Word"
begin

unbundle bit_operations_syntax

section \<open>The DFPWM1a encoder of src/main.py\<close>

text \<open>
  Python integers are unbounded and are modelled as \<^typ>\<open>int\<close>; \<open>>>\<close> on them is
  \<^const>\<open>drop_bit\<close> (floor division by a power of two) and \<open><<\<close> is \<^const>\<open>push_bit\<close>.
  A \<open>bytes\<close> object is a list of 8-bit words; reading an element gives its unsigned
  value \<^const>\<open>uint\<close>. The exceptions the encoder could raise are values of \<open>error\<close>:
  a negative shift count (ValueError), an index past the end of the buffer (IndexError),
  appending a value outside \<open>range(256)\<close> to a bytearray (ValueError).
\<close>

datatype error = ValueError | IndexError

type_synonym bytes = "8 word list"

record DFPWMCodec =
  newdfpwm :: bool
  dfpwm_old :: bool
  RESP_INC :: int
  RESP_DEC :: int
  RESP_PREC :: int
  response :: int
  level :: int
  lastbit :: bool

text \<open>The constructor: the dataclass field and \<open>__post_init__\<close> (lines 64 to 80).\<close>

definition post_init :: "bool \<Rightarrow> DFPWMCodec" where
  "post_init nd =
     \<lparr> newdfpwm = nd,
       dfpwm_old = (\<not> nd),
       RESP_INC = (if nd then 1 else 7),
       RESP_DEC = (if nd then 1 else 20),
       RESP_PREC = (if nd then 10 else 8),
       response = 0,
       level = 0,
       lastbit = False \<rparr>"

text \<open>
  \<open>_ctx_update\<close> (lines 82 to 114). The first shift evaluated is
  \<open>1 << (RESP_PREC - 1)\<close>, which raises for \<open>RESP_PREC < 1\<close>; once it has passed,
  every other shift count of the method is non-negative.
\<close>

definition ctx_update :: "bool \<Rightarrow> DFPWMCodec \<Rightarrow> error + DFPWMCodec" where
  "ctx_update curbit self =
     (if RESP_PREC self - 1 < 0 then Inl ValueError
      else
        let target = (if curbit then 127 else - 128);
            nlevel = level self +
              drop_bit (nat (RESP_PREC self))
                (response self * (target - level self)
                   + push_bit (nat (RESP_PREC self - 1)) 1);
            nlevel = (if nlevel = level self \<and> level self \<noteq> target
                      then nlevel + (if curbit then 1 else - 1) else nlevel);
            rtarget = (if curbit = lastbit self
                       then push_bit (nat (RESP_PREC self)) 1 - 1 else 0);
            rdelta = (if curbit = lastbit self then RESP_INC self else RESP_DEC self);
            nresponse = (if dfpwm_old self
                         then response self
                                + drop_bit 8 (rdelta * (rtarget - response self) + 128)
                         else response self);
            nresponse = (if nresponse = response self \<and> response self \<noteq> rtarget
                         then nresponse + (if curbit = lastbit self then 1 else - 1)
                         else nresponse);
            nresponse = (if RESP_PREC self > 8
                         then (let min_resp = push_bit (nat (RESP_PREC self - 8)) 2
                               in if nresponse < min_resp then min_resp else nresponse)
                         else nresponse)
        in Inr (self\<lparr> response := nresponse, lastbit := curbit, level := nlevel \<rparr>))"

text \<open>\<open>bytearray.append\<close>: the value must be in \<open>range(256)\<close>.\<close>

definition bytearray_append :: "bytes \<Rightarrow> int \<Rightarrow> error + bytes" where
  "bytearray_append out v =
     (if 0 \<le> v \<and> v < 256 then Inr (out @ [word_of_int v]) else Inl ValueError)"

text \<open>
  One pass through the body of the \<open>for\<close> loop (lines 128 to 135), on the loop's
  variables \<open>idx\<close>, \<open>d\<close> and the codec.
\<close>

definition sample_step :: "bytes \<Rightarrow> nat \<times> int \<times> DFPWMCodec \<Rightarrow> error + (nat \<times> int \<times> DFPWMCodec)" where
  "sample_step pcm_s8 s =
     (case s of (idx, d, self) \<Rightarrow>
        if idx < length pcm_s8 then
          (let b = uint (pcm_s8 ! idx);
               idx = idx + 1;
               inlevel = (if b > 127 then b - 256 else b);
               curbit = (inlevel > level self \<or> (inlevel = level self \<and> level self = 127));
               d = drop_bit 1 d + (if curbit then 128 else 0)
           in case ctx_update curbit self of
                Inl e \<Rightarrow> Inl e
              | Inr self \<Rightarrow> Inr (idx, d, self))
        else Inl IndexError)"

text \<open>\<open>for _ in range(k)\<close> around that body; the source has \<open>k = 8\<close>.\<close>

fun for_range :: "nat \<Rightarrow> bytes \<Rightarrow> nat \<times> int \<times> DFPWMCodec \<Rightarrow> error + (nat \<times> int \<times> DFPWMCodec)" where
  "for_range 0 pcm_s8 s = Inr s"
| "for_range (Suc k) pcm_s8 s =
     (case sample_step pcm_s8 s of
        Inl e \<Rightarrow> Inl e
      | Inr s' \<Rightarrow> for_range k pcm_s8 s')"

text \<open>The \<open>while idx < n\<close> loop (lines 125 to 137).\<close>

function while_loop :: "bytes \<Rightarrow> nat \<Rightarrow> nat \<Rightarrow> DFPWMCodec \<Rightarrow> bytes \<Rightarrow> error + (bytes \<times> DFPWMCodec)" where
  "while_loop pcm_s8 n idx self out =
     (if idx < n then
        (case for_range 8 pcm_s8 (idx, 0, self) of
           Inl e \<Rightarrow> Inl e
         | Inr (idx', d, self') \<Rightarrow>
             (case bytearray_append out (d AND 255) of
                Inl e \<Rightarrow> Inl e
              | Inr out' \<Rightarrow> while_loop pcm_s8 n idx' self' out'))
      else Inr (out, self))"
  by pat_completeness auto
termination
proof (relation "measure (\<lambda>(pcm_s8, n, idx, self, out). n - idx)")
  show "wf (measure (\<lambda>(pcm_s8, n, idx, self, out). n - idx))" by simp
next
  fix pcm_s8 :: bytes and n idx :: nat and self :: DFPWMCodec and out :: bytes
    and x2 :: "nat \<times> int \<times> DFPWMCodec" and y :: "int \<times> DFPWMCodec"
    and xa :: int and ya :: DFPWMCodec and x2a :: bytes
  fix idx' :: nat
  assume lt: "idx < n"
    and run: "for_range 8 pcm_s8 (idx, 0, self) = Inr x2"
    and x2: "(idx', y) = x2" and y: "(xa, ya) = y"
  have one: "i1 = i + 1" if "sample_step pcm_s8 (i, d, s) = Inr (i1, d1, s1)"
    for i d s i1 d1 s1
    using that by (auto simp: sample_step_def Let_def split: if_splits sum.splits)
  have adv: "i' = i + k" if "for_range k pcm_s8 (i, d, s) = Inr (i', d', s')"
    for k i d s i' d' s'
    using that
  proof (induction k arbitrary: i d s)
    case 0
    then show ?case by simp
  next
    case (Suc k)
    from Suc.prems obtain i1 d1 s1 where
      st: "sample_step pcm_s8 (i, d, s) = Inr (i1, d1, s1)"
      and rest: "for_range k pcm_s8 (i1, d1, s1) = Inr (i', d', s')"
      by (auto split: sum.splits)
    from one [OF st] Suc.IH [OF rest] show ?case by simp
  qed
  from run x2 y have "for_range 8 pcm_s8 (idx, 0, self) = Inr (idx', xa, ya)" by simp
  then have "idx' = idx + 8" by (rule adv)
  with lt show "((pcm_s8, n, idx', ya, x2a), (pcm_s8, n, idx, self, out))
      \<in> measure (\<lambda>(pcm_s8, n, idx, self, out). n - idx)"
    by simp
qed

declare while_loop.simps [simp del]

text \<open>
  \<open>compress_pcm_s8_to_dfpwm\<close> (lines 116 to 139): the returned bytes together with the
  codec object as the call leaves it.
\<close>

definition compress_pcm_s8_to_dfpwm :: "DFPWMCodec \<Rightarrow> bytes \<Rightarrow> error + (bytes \<times> DFPWMCodec)" where
  "compress_pcm_s8_to_dfpwm self pcm_s8 =
     (let n = length pcm_s8 - (length pcm_s8 mod 8);
          idx = 0
      in while_loop pcm_s8 n idx self [])"

section \<open>Derived notions\<close>

text \<open>
  The pieces of the loop body as functions of their own, used to state and prove the
  properties below. Lemmas \<open>sample_step_eq\<close>, \<open>for_range_eq\<close> and \<open>compress_eq\<close> show
  that the loops of the source compute exactly these: \<open>inlevel_of\<close> is the value bound to
  \<open>inlevel\<close> (line 130), \<open>curbit_of\<close> the value bound to \<open>curbit\<close> (line 132),
  \<open>shift_in\<close> the new value of \<open>d\<close> (line 133), \<open>feed\<close> the codec after one sample,
  \<open>run\<close> the codec after a sequence of samples, \<open>bits\<close> the bits decided along it,
  and \<open>enc\<close> the bytes emitted for a buffer, one per full group of eight samples.
\<close>

definition inlevel_of :: "8 word \<Rightarrow> int" where
  "inlevel_of b = (if uint b > 127 then uint b - 256 else uint b)"

definition curbit_of :: "DFPWMCodec \<Rightarrow> 8 word \<Rightarrow> bool" where
  "curbit_of self b =
     (inlevel_of b > level self \<or> (inlevel_of b = level self \<and> level self = 127))"

definition ctx_next :: "bool \<Rightarrow> DFPWMCodec \<Rightarrow> DFPWMCodec" where
  "ctx_next curbit self = (case ctx_update curbit self of Inl e \<Rightarrow> self | Inr self' \<Rightarrow> self')"

definition feed :: "DFPWMCodec \<Rightarrow> 8 word \<Rightarrow> DFPWMCodec" where
  "feed self b = ctx_next (curbit_of self b) self"

definition run :: "DFPWMCodec \<Rightarrow> bytes \<Rightarrow> DFPWMCodec" where
  "run self bs = foldl feed self bs"

fun bits :: "DFPWMCodec \<Rightarrow> bytes \<Rightarrow> bool list" where
  "bits self [] = []"
| "bits self (b # bs) = curbit_of self b # bits (feed self b) bs"

definition shift_in :: "int \<Rightarrow> bool \<Rightarrow> int" where
  "shift_in d curbit = drop_bit 1 d + (if curbit then 128 else 0)"

definition pack :: "int \<Rightarrow> bool list \<Rightarrow> int" where
  "pack d cs = foldl shift_in d cs"

fun enc :: "DFPWMCodec \<Rightarrow> bytes \<Rightarrow> bytes" where
  "enc self bs =
     (if length bs < 8 then []
      else word_of_int (pack 0 (bits self (take 8 bs)) AND 255)
             # enc (run self (take 8 bs)) (drop 8 bs))"

declare enc.simps [simp del]

text \<open>
  \<open>mode_consts nd\<close> holds of a codec that carries the constants the constructor sets for
  \<open>newdfpwm = nd\<close>; no method of the class writes them. \<open>in_range\<close> adds the bounds on
  level and response that the updates keep. \<open>reachable nd\<close> are the codecs a session
  can see: the freshly constructed one, and the one left by the loop body after any sample
  of any buffer, on a codec that is reachable itself.
\<close>

definition mode_consts :: "bool \<Rightarrow> DFPWMCodec \<Rightarrow> bool" where
  "mode_consts nd self =
     (newdfpwm self = nd \<and> dfpwm_old self = (\<not> nd) \<and>
      RESP_INC self = (if nd then 1 else 7) \<and>
      RESP_DEC self = (if nd then 1 else 20) \<and>
      RESP_PREC self = (if nd then 10 else 8))"

definition in_range :: "bool \<Rightarrow> DFPWMCodec \<Rightarrow> bool" where
  "in_range nd self =
     (mode_consts nd self \<and> - 128 \<le> level self \<and> level self \<le> 127 \<and>
      0 \<le> response self \<and> response self \<le> (if nd then 1023 else 255))"

inductive reachable :: "bool \<Rightarrow> DFPWMCodec \<Rightarrow> bool" for nd :: bool where
  fresh: "reachable nd (post_init nd)"
| sample: "reachable nd self \<Longrightarrow> sample_step pcm_s8 (idx, d, self) = Inr (idx', d', self')
    \<Longrightarrow> reachable nd self'"

text \<open>
  The same notions on signed samples, for stating what a call returns in terms of the
  samples the bytes stand for: \<open>decide\<close> is line 132 with the value of \<open>inlevel\<close> as its
  argument, \<open>feed_sample\<close>, \<open>run_samples\<close> and \<open>sample_bits\<close> thread the codec through
  \<open>_ctx_update\<close> as the loop does, and \<open>encode_samples\<close> packs the decided bits of each
  full group of eight samples into a byte, as lines 126 to 137 do.
\<close>

definition decide :: "DFPWMCodec \<Rightarrow> int \<Rightarrow> bool" where
  "decide self inlevel =
     (inlevel > level self \<or> (inlevel = level self \<and> level self = 127))"

definition feed_sample :: "DFPWMCodec \<Rightarrow> int \<Rightarrow> DFPWMCodec" where
  "feed_sample self inlevel = ctx_next (decide self inlevel) self"

definition run_samples :: "DFPWMCodec \<Rightarrow> int list \<Rightarrow> DFPWMCodec" where
  "run_samples self ss = foldl feed_sample self ss"

fun sample_bits :: "DFPWMCodec \<Rightarrow> int list \<Rightarrow> bool list" where
  "sample_bits self [] = []"
| "sample_bits self (s # ss) = decide self s # sample_bits (feed_sample self s) ss"

fun encode_samples :: "DFPWMCodec \<Rightarrow> int list \<Rightarrow> bytes" where
  "encode_samples self ss =
     (if length ss < 8 then []
      else word_of_int (pack 0 (sample_bits self (take 8 ss)) AND 255)
             # encode_samples (run_samples self (take 8 ss)) (drop 8 ss))"

declare encode_samples.simps [simp del]

section \<open>The loops compute the derived notions\<close>

lemma ctx_update_total: "1 \<le> RESP_PREC self \<Longrightarrow> ctx_update c self = Inr (ctx_next c self)"
  by (simp add: ctx_next_def ctx_update_def Let_def)

lemma ctx_next_PREC [simp]: "RESP_PREC (ctx_next c self) = RESP_PREC self"
  by (simp add: ctx_next_def ctx_update_def Let_def)

lemma feed_PREC [simp]: "RESP_PREC (feed self b) = RESP_PREC self"
  by (simp add: feed_def)

lemma run_PREC [simp]: "RESP_PREC (run self bs) = RESP_PREC self"
  unfolding run_def by (induction bs arbitrary: self) simp_all

lemma run_Nil [simp]: "run self [] = self"
  by (simp add: run_def)

lemma run_Cons [simp]: "run self (b # bs) = run (feed self b) bs"
  by (simp add: run_def)

lemma run_append: "run self (xs @ ys) = run (run self xs) ys"
  by (simp add: run_def)

lemma pack_Nil [simp]: "pack d [] = d"
  by (simp add: pack_def)

lemma pack_Cons [simp]: "pack d (c # cs) = pack (shift_in d c) cs"
  by (simp add: pack_def)

lemma sample_step_eq:
  assumes "1 \<le> RESP_PREC self" "idx < length pcm"
  shows "sample_step pcm (idx, d, self) =
    Inr (idx + 1, shift_in d (curbit_of self (pcm ! idx)), feed self (pcm ! idx))"
  using assms
  by (simp add: sample_step_def Let_def feed_def curbit_of_def inlevel_of_def shift_in_def
      ctx_update_total)

lemma for_range_eq:
  "1 \<le> RESP_PREC self \<Longrightarrow> idx + k \<le> length pcm \<Longrightarrow>
   for_range k pcm (idx, d, self) =
     Inr (idx + k, pack d (bits self (take k (drop idx pcm))), run self (take k (drop idx pcm)))"
proof (induction k arbitrary: idx d self)
  case 0
  then show ?case by simp
next
  case (Suc k)
  from Suc.prems have lt: "idx < length pcm" by simp
  then have split: "take (Suc k) (drop idx pcm) = pcm ! idx # take k (drop (Suc idx) pcm)"
    by (simp add: Cons_nth_drop_Suc [symmetric])
  from Suc.prems have "Suc idx + k \<le> length pcm" by simp
  with Suc.IH [of "feed self (pcm ! idx)" "Suc idx"] Suc.prems(1) lt show ?case
    by (simp add: sample_step_eq split)
qed


lemma and_255_range: "0 \<le> (d::int) AND 255 \<and> d AND 255 < 256"
proof -
  have "d AND 255 \<le> 255" by (rule AND_upper2) simp
  moreover have "0 \<le> d AND 255" by simp
  ultimately show ?thesis by simp
qed

lemma append_and_255: "bytearray_append out (d AND 255) = Inr (out @ [word_of_int (d AND 255)])"
  using and_255_range [of d] by (simp add: bytearray_append_def)

lemma enc_short: "length bs < 8 \<Longrightarrow> enc self bs = []"
  by (simp add: enc.simps)

lemma enc_long:
  "8 \<le> length bs \<Longrightarrow>
   enc self bs = word_of_int (pack 0 (bits self (take 8 bs)) AND 255)
                   # enc (run self (take 8 bs)) (drop 8 bs)"
  by (subst enc.simps) simp

lemma run_take_drop: "run (run self (take k bs)) (drop k bs) = run self bs"
  by (simp add: run_append [symmetric])

lemma while_loop_eq_aux:
  "1 \<le> RESP_PREC self \<Longrightarrow> n \<le> length pcm \<Longrightarrow> idx + 8 * m = n \<Longrightarrow>
   while_loop pcm n idx self out =
     Inr (out @ enc self (take (8 * m) (drop idx pcm)), run self (take (8 * m) (drop idx pcm)))"
proof (induction m arbitrary: idx self out)
  case 0
  then show ?case by (simp add: while_loop.simps enc_short)
next
  case (Suc m)
  let ?xs = "take (8 * Suc m) (drop idx pcm)"
  let ?g = "take 8 (drop idx pcm)"
  let ?d = "pack 0 (bits self ?g)"
  from Suc.prems have lt: "idx < n" and le8: "idx + 8 \<le> length pcm" by simp_all
  have len: "length ?xs = 8 * Suc m" using Suc.prems by simp
  have tk: "take 8 ?xs = ?g" by (simp add: min_def)
  have dr: "drop 8 ?xs = take (8 * m) (drop (idx + 8) pcm)"
    by (simp add: drop_take add.commute)
  have group: "for_range 8 pcm (idx, 0, self) = Inr (idx + 8, ?d, run self ?g)"
    using Suc.prems(1) le8 by (rule for_range_eq)
  have rest: "while_loop pcm n (idx + 8) (run self ?g) (out @ [word_of_int (?d AND 255)]) =
      Inr ((out @ [word_of_int (?d AND 255)]) @ enc (run self ?g) (take (8 * m) (drop (idx + 8) pcm)),
           run (run self ?g) (take (8 * m) (drop (idx + 8) pcm)))"
    using Suc.prems by (intro Suc.IH) simp_all
  have e: "enc self ?xs = word_of_int (?d AND 255) # enc (run self ?g) (take (8 * m) (drop (idx + 8) pcm))"
    using enc_long [of ?xs self] len by (simp only: tk dr) simp
  have r: "run self ?xs = run (run self ?g) (take (8 * m) (drop (idx + 8) pcm))"
    using run_take_drop [of self 8 ?xs] by (simp only: tk dr)
  have "while_loop pcm n idx self out =
      while_loop pcm n (idx + 8) (run self ?g) (out @ [word_of_int (?d AND 255)])"
    using lt by (subst while_loop.simps) (simp add: group append_and_255)
  with rest e r show ?case by simp
qed

lemma compress_eq:
  assumes "1 \<le> RESP_PREC self"
  shows "compress_pcm_s8_to_dfpwm self pcm =
     Inr (enc self (take (8 * (length pcm div 8)) pcm), run self (take (8 * (length pcm div 8)) pcm))"
proof -
  have n: "length pcm - length pcm mod 8 = 8 * (length pcm div 8)"
    by (simp add: minus_mod_eq_mult_div)
  have "while_loop pcm (8 * (length pcm div 8)) 0 self [] =
     Inr ([] @ enc self (take (8 * (length pcm div 8)) (drop 0 pcm)),
          run self (take (8 * (length pcm div 8)) (drop 0 pcm)))"
    using assms by (intro while_loop_eq_aux) simp_all
  then show ?thesis by (simp add: compress_pcm_s8_to_dfpwm_def n)
qed

lemma length_enc: "length (enc self bs) = length bs div 8"
proof (induction self bs rule: enc.induct)
  case (1 self bs)
  show ?case
  proof (cases "length bs < 8")
    case True
    then show ?thesis by (simp add: enc_short)
  next
    case False
    then have "length (enc (run self (take 8 bs)) (drop 8 bs)) = length (drop 8 bs) div 8"
      by (rule "1.IH")
    with False show ?thesis
      by (simp add: enc_long)
  qed
qed

lemma enc_append:
  "length xs = 8 * m \<Longrightarrow> enc self (xs @ ys) = enc self xs @ enc (run self xs) ys"
proof (induction m arbitrary: self xs)
  case 0
  then show ?case by (simp add: enc_short)
next
  case (Suc m)
  then have len: "8 \<le> length xs" by simp
  let ?g = "take 8 xs"
  have d: "length (drop 8 xs) = 8 * m" using Suc.prems by simp
  have IH: "enc (run self ?g) (drop 8 xs @ ys) =
      enc (run self ?g) (drop 8 xs) @ enc (run (run self ?g) (drop 8 xs)) ys"
    using d by (rule Suc.IH)
  have "enc self (xs @ ys) =
      word_of_int (pack 0 (bits self ?g) AND 255) # enc (run self ?g) (drop 8 xs @ ys)"
    using len by (subst enc_long) simp_all
  moreover have "enc self xs =
      word_of_int (pack 0 (bits self ?g) AND 255) # enc (run self ?g) (drop 8 xs)"
    using len by (rule enc_long)
  ultimately show ?case using IH by (simp add: run_take_drop)
qed

section \<open>What one context update does, and the bounds it keeps\<close>

lemma level_ctx_next:
  "1 \<le> RESP_PREC self \<Longrightarrow>
   level (ctx_next c self) =
     (let target = (if c then 127 else - 128);
          nlevel = level self + (response self * (target - level self)
                      + 2 ^ nat (RESP_PREC self - 1)) div 2 ^ nat (RESP_PREC self)
      in if nlevel = level self \<and> level self \<noteq> target
         then nlevel + (if c then 1 else - 1) else nlevel)"
  by (simp add: ctx_next_def ctx_update_def Let_def drop_bit_eq_div push_bit_eq_mult)

lemma response_ctx_next_new:
  "mode_consts True self \<Longrightarrow>
   response (ctx_next c self) =
     max 8 (if c = lastbit self
            then (if response self = 1023 then response self else response self + 1)
            else (if response self = 0 then response self else response self - 1))"
  by (simp add: mode_consts_def ctx_next_def ctx_update_def Let_def push_bit_eq_mult max_def)

lemma response_ctx_next_old:
  "mode_consts False self \<Longrightarrow>
   response (ctx_next c self) =
     (let rtarget = (if c = lastbit self then 255 else 0);
          rdelta = (if c = lastbit self then 7 else 20);
          nresponse = response self + (rdelta * (rtarget - response self) + 128) div 256
      in if nresponse = response self \<and> response self \<noteq> rtarget
         then nresponse + (if c = lastbit self then 1 else - 1) else nresponse)"
  by (simp add: mode_consts_def ctx_next_def ctx_update_def Let_def push_bit_eq_mult drop_bit_eq_div)

lemma mode_consts_ctx_next: "mode_consts nd self \<Longrightarrow> mode_consts nd (ctx_next c self)"
  by (simp add: mode_consts_def ctx_next_def ctx_update_def Let_def)

lemma lastbit_ctx_next: "1 \<le> RESP_PREC self \<Longrightarrow> lastbit (ctx_next c self) = c"
  by (simp add: ctx_next_def ctx_update_def Let_def)


lemma up10:
  fixes a x :: int
  shows "0 \<le> a \<Longrightarrow> a \<le> 1023 * x \<Longrightarrow> 0 \<le> (a + 512) div 1024 \<and> (a + 512) div 1024 \<le> x"
  by arith

lemma down10:
  fixes a x :: int
  shows "0 \<le> a \<Longrightarrow> a \<le> 1023 * x \<Longrightarrow> - x \<le> (512 - a) div 1024 \<and> (512 - a) div 1024 \<le> 0"
  by arith

lemma up8:
  fixes a x :: int
  shows "0 \<le> a \<Longrightarrow> a \<le> 255 * x \<Longrightarrow> 0 \<le> (a + 128) div 256 \<and> (a + 128) div 256 \<le> x"
  by arith

lemma down8:
  fixes a x :: int
  shows "0 \<le> a \<Longrightarrow> a \<le> 255 * x \<Longrightarrow> - x \<le> (128 - a) div 256 \<and> (128 - a) div 256 \<le> 0"
  by arith

lemma level_step_range:
  fixes l r m h :: int
  assumes l: "- 128 \<le> l" "l \<le> 127" and r: "0 \<le> r" "r \<le> m"
    and up: "\<And>a x. 0 \<le> a \<Longrightarrow> a \<le> m * x \<Longrightarrow> 0 \<le> (a + h) div (2 * h) \<and> (a + h) div (2 * h) \<le> x"
    and down: "\<And>a x. 0 \<le> a \<Longrightarrow> a \<le> m * x \<Longrightarrow> - x \<le> (h - a) div (2 * h) \<and> (h - a) div (2 * h) \<le> 0"
  shows "- 128 \<le> (let target = (if c then 127 else - 128);
                     nlevel = l + (r * (target - l) + h) div (2 * h)
                 in if nlevel = l \<and> l \<noteq> target then nlevel + (if c then 1 else - 1) else nlevel)
       \<and> (let target = (if c then 127 else - 128);
                     nlevel = l + (r * (target - l) + h) div (2 * h)
                 in if nlevel = l \<and> l \<noteq> target then nlevel + (if c then 1 else - 1) else nlevel) \<le> 127"
proof (cases c)
  case True
  have a0: "0 \<le> r * (127 - l)" using l r by simp
  have a1: "r * (127 - l) \<le> m * (127 - l)" using l r by (intro mult_right_mono) simp_all
  from up [OF a0 a1] l True show ?thesis by (simp add: Let_def)
next
  case False
  have a0: "0 \<le> r * (l + 128)" using l r by simp
  have a1: "r * (l + 128) \<le> m * (l + 128)" using l r by (intro mult_right_mono) simp_all
  have e: "r * (- 128 - l) + h = h - r * (l + 128)" by (simp add: algebra_simps)
  from down [OF a0 a1] l False show ?thesis by (simp add: Let_def e)
qed

lemma in_range_ctx_next:
  assumes "in_range nd self"
  shows "in_range nd (ctx_next c self)"
proof -
  from assms have mc: "mode_consts nd self" and l: "- 128 \<le> level self" "level self \<le> 127"
    and r: "0 \<le> response self" "response self \<le> (if nd then 1023 else 255)"
    by (simp_all add: in_range_def)
  have mc': "mode_consts nd (ctx_next c self)" using mc by (rule mode_consts_ctx_next)
  have p: "1 \<le> RESP_PREC self" using mc by (simp add: mode_consts_def)
  show ?thesis
  proof (cases nd)
    case True
    have lv: "- 128 \<le> level (ctx_next c self) \<and> level (ctx_next c self) \<le> 127"
      using level_step_range [of "level self" "response self" 1023 512 c, OF l] r True mc up10 down10
      by (simp add: level_ctx_next [OF p] mode_consts_def)
    have rs: "0 \<le> response (ctx_next c self) \<and> response (ctx_next c self) \<le> 1023"
      using r True mc by (auto simp add: response_ctx_next_new max_def)
    from lv rs mc' True show ?thesis by (simp add: in_range_def)
  next
    case False
    have lv: "- 128 \<le> level (ctx_next c self) \<and> level (ctx_next c self) \<le> 127"
      using level_step_range [of "level self" "response self" 255 128 c, OF l] r False mc up8 down8
      by (simp add: level_ctx_next [OF p] mode_consts_def)
    have rs: "0 \<le> response (ctx_next c self) \<and> response (ctx_next c self) \<le> 255"
      using r False mc by (simp add: response_ctx_next_old Let_def) arith
    from lv rs mc' False show ?thesis by (simp add: in_range_def)
  qed
qed

section \<open>Reachable codecs stay in range\<close>

lemma sample_step_Inr:
  assumes "sample_step pcm (idx, d, self) = Inr (idx', d', self')"
  shows "idx < length pcm \<and> 1 \<le> RESP_PREC self \<and> idx' = idx + 1 \<and>
         d' = shift_in d (curbit_of self (pcm ! idx)) \<and> self' = feed self (pcm ! idx)"
proof -
  from assms have lt: "idx < length pcm"
    by (auto simp: sample_step_def split: if_splits)
  have p: "1 \<le> RESP_PREC self"
  proof (rule ccontr)
    assume "\<not> 1 \<le> RESP_PREC self"
    then have "sample_step pcm (idx, d, self) = Inl ValueError"
      using lt by (simp add: sample_step_def ctx_update_def Let_def)
    with assms show False by simp
  qed
  from sample_step_eq [OF p lt, of d] assms lt p show ?thesis by simp
qed

lemma in_range_post_init: "in_range nd (post_init nd)"
  by (simp add: in_range_def mode_consts_def post_init_def)

lemma in_range_feed: "in_range nd self \<Longrightarrow> in_range nd (feed self b)"
  by (simp add: feed_def in_range_ctx_next)

lemma reachable_in_range: "reachable nd self \<Longrightarrow> in_range nd self"
proof (induction rule: reachable.induct)
  case fresh
  show ?case by (rule in_range_post_init)
next
  case (sample self pcm_s8 idx d idx' d' self')
  from sample_step_Inr [OF sample.hyps(2)] have "self' = feed self (pcm_s8 ! idx)" by simp
  with sample.IH show ?case by (simp add: in_range_feed)
qed

lemma in_range_PREC: "in_range nd self \<Longrightarrow> 1 \<le> RESP_PREC self"
  by (simp add: in_range_def mode_consts_def)

lemma reachable_feed: "reachable nd self \<Longrightarrow> reachable nd (feed self b)"
proof -
  assume r: "reachable nd self"
  then have p: "1 \<le> RESP_PREC self" by (intro in_range_PREC reachable_in_range)
  have "sample_step [b] (0, 0, self) = Inr (0 + 1, shift_in 0 (curbit_of self ([b] ! 0)), feed self ([b] ! 0))"
    using p by (intro sample_step_eq) simp_all
  then have "sample_step [b] (0, 0, self) = Inr (1, shift_in 0 (curbit_of self b), feed self b)"
    by simp
  with r show ?thesis by (rule reachable.sample)
qed

lemma reachable_run: "reachable nd self \<Longrightarrow> reachable nd (run self bs)"
  by (induction bs arbitrary: self) (simp_all add: reachable_feed)

lemma in_range_run: "in_range nd self \<Longrightarrow> in_range nd (run self bs)"
  by (induction bs arbitrary: self) (simp_all add: in_range_feed)


lemma inlevel_of_sint: "inlevel_of b = sint b"
proof -
  have lo: "0 \<le> uint b" by simp
  have hi: "uint b < 256" using uint_bounded [of b] by simp
  have "sint b = take_bit 8 (uint b) - 256 * of_bool (bit (uint b) 7)"
    by (simp add: sint_uint signed_take_bit_eq_take_bit_minus)
  moreover have "take_bit 8 (uint b) = uint b"
    using lo hi by (simp add: take_bit_int_eq_self)
  moreover have "bit (uint b) 7 \<longleftrightarrow> 128 \<le> uint b"
  proof -
    have "bit (uint b) 7 \<longleftrightarrow> odd (uint b div 128)" by (simp add: bit_iff_odd)
    also have "\<dots> \<longleftrightarrow> 128 \<le> uint b" using lo hi by presburger
    finally show ?thesis .
  qed
  ultimately show ?thesis by (simp add: inlevel_of_def)
qed

lemma inlevel_of_range: "- 128 \<le> inlevel_of b \<and> inlevel_of b \<le> 127"
proof -
  have "- 128 \<le> sint b" using sint_ge [of b] by simp
  moreover have "sint b < 128" using sint_lt [of b] by simp
  ultimately show ?thesis by (simp add: inlevel_of_sint)
qed

lemma ctx_update_Inr:
  "ctx_update c self = Inr self' \<Longrightarrow> 1 \<le> RESP_PREC self \<and> self' = ctx_next c self"
  by (cases "1 \<le> RESP_PREC self") (simp_all add: ctx_next_def, simp add: ctx_update_def)

lemma sample_step_sint:
  "idx < length pcm \<Longrightarrow>
   sample_step pcm (idx, d, self) =
     (let inlevel = sint (pcm ! idx);
          curbit = (inlevel > level self \<or> (inlevel = level self \<and> level self = 127))
      in case ctx_update curbit self of
           Inl e \<Rightarrow> Inl e
         | Inr self' \<Rightarrow> Inr (idx + 1, drop_bit 1 d + (if curbit then 128 else 0), self'))"
  using inlevel_of_sint [of "pcm ! idx"]
  by (simp add: sample_step_def Let_def inlevel_of_def split: sum.splits)

section \<open>Constant inputs at the extremes\<close>

lemma curbit_of_max: "in_range nd self \<Longrightarrow> curbit_of self 127"
  by (auto simp: curbit_of_def inlevel_of_def in_range_def)

lemma curbit_of_min: "in_range nd self \<Longrightarrow> \<not> curbit_of self 128"
  by (auto simp: curbit_of_def inlevel_of_def in_range_def)

lemma bits_max: "in_range nd self \<Longrightarrow> bits self (replicate k 127) = replicate k True"
  by (induction k arbitrary: self) (simp_all add: curbit_of_max in_range_feed)

lemma bits_min: "in_range nd self \<Longrightarrow> bits self (replicate k 128) = replicate k False"
  by (induction k arbitrary: self) (simp_all add: curbit_of_min in_range_feed)

lemma shift_in_True: "shift_in d True = d div 2 + 128"
  by (simp add: shift_in_def drop_bit_eq_div)

lemma shift_in_False: "shift_in d False = d div 2"
  by (simp add: shift_in_def drop_bit_eq_div)

lemma pack_all_True: "pack 0 (replicate 8 True) = 255"
  by (simp add: pack_def eval_nat_numeral shift_in_True)

lemma pack_all_False: "pack 0 (replicate 8 False) = 0"
  by (simp add: pack_def eval_nat_numeral shift_in_False)

lemma enc_one_group:
  "length g = 8 \<Longrightarrow> enc self g = [word_of_int (pack 0 (bits self g) AND 255)]"
  by (simp add: enc_long enc_short)

lemma enc_replicate:
  assumes bs: "\<And>s. in_range nd s \<Longrightarrow> pack 0 (bits s (replicate 8 b)) AND 255 = v"
  shows "in_range nd self \<Longrightarrow> enc self (replicate k b) = replicate (k div 8) (word_of_int v)"
proof (induction k arbitrary: self rule: less_induct)
  case (less k)
  show ?case
  proof (cases "k < 8")
    case True
    then show ?thesis by (simp add: enc_short)
  next
    case False
    then obtain j where k: "k = 8 + j" using le_Suc_ex [of 8 k] by auto
    have sp: "replicate k b = replicate 8 b @ replicate j b"
      unfolding k by (rule replicate_add)
    have r: "in_range nd (run self (replicate 8 b))" using less.prems by (rule in_range_run)
    have IH: "enc (run self (replicate 8 b)) (replicate j b) = replicate (j div 8) (word_of_int v)"
      using r by (rule less.IH [rotated]) (simp add: k)
    have g: "enc self (replicate 8 b) = [word_of_int v]"
      using bs [OF less.prems] by (simp add: enc_one_group)
    have d: "k div 8 = Suc (j div 8)" unfolding k by simp
    have "enc self (replicate 8 b @ replicate j b)
        = enc self (replicate 8 b) @ enc (run self (replicate 8 b)) (replicate j b)"
      by (rule enc_append [of _ 1]) simp
    then show ?thesis unfolding sp by (simp only: g IH d) simp
  qed
qed

section \<open>Two groups in one call or in two\<close>

lemma sample_step_fail:
  "RESP_PREC self < 1 \<Longrightarrow> idx < length pcm \<Longrightarrow> sample_step pcm (idx, d, self) = Inl ValueError"
  by (simp add: sample_step_def ctx_update_def Let_def)

lemma while_loop_fail:
  "RESP_PREC self < 1 \<Longrightarrow> idx < n \<Longrightarrow> idx < length pcm \<Longrightarrow>
   while_loop pcm n idx self out = Inl ValueError"
  by (subst while_loop.simps) (simp add: eval_nat_numeral sample_step_fail)

lemma compress_fail:
  assumes "RESP_PREC self < 1" and "8 \<le> length pcm"
  shows "compress_pcm_s8_to_dfpwm self pcm = Inl ValueError"
proof -
  have "length pcm mod 8 < 8" by simp
  with assms(2) have n: "0 < length pcm - length pcm mod 8" by linarith
  have l: "0 < length pcm" using assms(2) by linarith
  have "while_loop pcm (length pcm - length pcm mod 8) 0 self [] = Inl ValueError"
    using assms(1) n l by (rule while_loop_fail)
  then show ?thesis by (simp add: compress_pcm_s8_to_dfpwm_def)
qed

lemma compress_two_groups:
  assumes "length pcm = 16"
  shows "compress_pcm_s8_to_dfpwm self pcm =
    (case compress_pcm_s8_to_dfpwm self (take 8 pcm) of
       Inl e \<Rightarrow> Inl e
     | Inr (out1, self1) \<Rightarrow>
         (case compress_pcm_s8_to_dfpwm self1 (drop 8 pcm) of
            Inl e \<Rightarrow> Inl e
          | Inr (out2, self2) \<Rightarrow> Inr (out1 @ out2, self2)))"
proof (cases "1 \<le> RESP_PREC self")
  case True
  let ?xs = "take 8 pcm" and ?ys = "drop 8 pcm"
  have lx: "length ?xs = 8" and ly: "length ?ys = 8" using assms by simp_all
  have p1: "1 \<le> RESP_PREC (run self ?xs)" using True by simp
  have whole: "compress_pcm_s8_to_dfpwm self pcm = Inr (enc self pcm, run self pcm)"
    using compress_eq [OF True, of pcm] assms by simp
  have first: "compress_pcm_s8_to_dfpwm self ?xs = Inr (enc self ?xs, run self ?xs)"
    using compress_eq [OF True, of ?xs] lx by simp
  have second: "compress_pcm_s8_to_dfpwm (run self ?xs) ?ys
      = Inr (enc (run self ?xs) ?ys, run (run self ?xs) ?ys)"
    using compress_eq [OF p1, of ?ys] ly by simp
  have "enc self (?xs @ ?ys) = enc self ?xs @ enc (run self ?xs) ?ys"
    using lx by (intro enc_append [of _ 1]) simp
  then have e: "enc self pcm = enc self ?xs @ enc (run self ?xs) ?ys" by simp
  have r: "run self pcm = run (run self ?xs) ?ys" by (simp add: run_take_drop)
  show ?thesis by (simp add: whole first second e r)
next
  case False
  then have f: "RESP_PREC self < 1" by simp
  have "compress_pcm_s8_to_dfpwm self pcm = Inl ValueError"
    using f assms by (intro compress_fail) simp_all
  moreover have "compress_pcm_s8_to_dfpwm self (take 8 pcm) = Inl ValueError"
    using f assms by (intro compress_fail) simp_all
  ultimately show ?thesis by simp
qed

section \<open>Bits of a packed byte\<close>

lemma byte_no_bit: "0 \<le> d \<Longrightarrow> d < 256 \<Longrightarrow> 8 \<le> n \<Longrightarrow> \<not> bit (d::int) n"
proof -
  assume a: "0 \<le> d" "d < 256" "8 \<le> n"
  have "take_bit 8 d = d" using a by (intro take_bit_int_eq_self) simp_all
  then have "bit d n = bit (take_bit 8 d) n" by simp
  also have "\<dots> = False" using a(3) by (simp add: bit_take_bit_iff)
  finally show ?thesis by simp
qed

lemma bit_128: "bit (128::int) n \<longleftrightarrow> n = 7"
  using bit_exp_iff [of 7 n, where ?'a = int] by simp

lemma shift_in_range:
  assumes "0 \<le> d" "d < 256"
  shows "0 \<le> shift_in d c \<and> shift_in d c < 256"
proof -
  have "0 \<le> d div 2" "d div 2 < 128" using assms by simp_all
  then show ?thesis by (simp add: shift_in_def drop_bit_eq_div)
qed

lemma shift_in_or:
  assumes "0 \<le> d" "d < 256"
  shows "shift_in d c = drop_bit 1 d OR (if c then 128 else 0)"
proof (cases c)
  case True
  have "\<not> bit (drop_bit 1 d) n \<or> \<not> bit (128::int) n" for n
  proof (cases "n = 7")
    case True
    have "\<not> bit d 8" using assms by (intro byte_no_bit) simp_all
    with True show ?thesis by (simp add: bit_drop_bit_eq)
  next
    case False
    then show ?thesis by (simp add: bit_128)
  qed
  then have "drop_bit 1 d + 128 = drop_bit 1 d OR 128" by (rule disjunctive_add)
  with True show ?thesis by (simp add: shift_in_def)
next
  case False
  then show ?thesis by (simp add: shift_in_def)
qed

lemma bit_shift_in:
  assumes "0 \<le> d" "d < 256"
  shows "bit (shift_in d c) i \<longleftrightarrow> (if i = 7 then c else bit d (Suc i))"
proof -
  have top: "\<not> bit d 8" using assms by (intro byte_no_bit) simp_all
  have "bit (shift_in d c) i \<longleftrightarrow> bit d (Suc i) \<or> (c \<and> i = 7)"
    unfolding shift_in_or [OF assms]
    by (simp add: bit_or_iff bit_drop_bit_eq bit_128)
  with top show ?thesis by auto
qed

lemma pack_snoc: "pack d (cs @ [c]) = shift_in (pack d cs) c"
  by (simp add: pack_def)

lemma pack_bits:
  assumes "0 \<le> d" "d < 256"
  shows "length cs \<le> 8 \<Longrightarrow>
    (0 \<le> pack d cs \<and> pack d cs < 256) \<and>
    (\<forall>i < length cs. bit (pack d cs) (8 - length cs + i) \<longleftrightarrow> cs ! i)"
proof (induction cs rule: rev_induct)
  case Nil
  then show ?case using assms by (simp add: pack_def)
next
  case (snoc c cs)
  then have len: "length cs \<le> 7" by simp
  with snoc.IH have r: "0 \<le> pack d cs" "pack d cs < 256"
    and b: "\<And>i. i < length cs \<Longrightarrow> bit (pack d cs) (8 - length cs + i) \<longleftrightarrow> cs ! i"
    by simp_all
  have rng: "0 \<le> pack d (cs @ [c]) \<and> pack d (cs @ [c]) < 256"
    unfolding pack_snoc using r by (rule shift_in_range)
  have "bit (pack d (cs @ [c])) (8 - length (cs @ [c]) + i) \<longleftrightarrow> (cs @ [c]) ! i"
    if i: "i < length (cs @ [c])" for i
  proof (cases "i = length cs")
    case True
    with len have "8 - length (cs @ [c]) + i = 7" by simp
    with True show ?thesis by (simp add: pack_snoc bit_shift_in [OF r])
  next
    case False
    with i have lt: "i < length cs" by simp
    with len have j: "8 - length (cs @ [c]) + i \<noteq> 7"
      and s: "Suc (8 - length (cs @ [c]) + i) = 8 - length cs + i" by simp_all
    show ?thesis
      unfolding pack_snoc bit_shift_in [OF r] using j lt b [OF lt]
      by (simp only: s if_False nth_append if_True)
  qed
  with rng show ?case by blast
qed

lemma bit_byte_of_pack:
  assumes "length cs = 8" "i < 8"
  shows "bit (word_of_int (pack 0 cs AND 255) :: 8 word) i \<longleftrightarrow> cs ! i"
proof -
  have p: "(0 \<le> pack 0 cs \<and> pack 0 cs < 256) \<and>
    (\<forall>i < length cs. bit (pack 0 cs) (8 - length cs + i) \<longleftrightarrow> cs ! i)"
    using assms(1) by (intro pack_bits) simp_all
  then have b: "bit (pack 0 cs) i \<longleftrightarrow> cs ! i" using assms by simp
  have m: "(255::int) = mask 8" by (simp add: mask_eq_exp_minus_1)
  have "bit (word_of_int (pack 0 cs AND 255) :: 8 word) i \<longleftrightarrow> bit (pack 0 cs) i"
    unfolding m using assms(2) by (simp add: bit_word_of_int_iff bit_and_iff bit_mask_iff)
  with b show ?thesis by simp
qed


lemma length_bits [simp]: "length (bits self bs) = length bs"
  by (induction bs arbitrary: self) simp_all

lemma bits_append: "bits self (xs @ ys) = bits self xs @ bits (run self xs) ys"
  by (induction xs arbitrary: self) simp_all

lemma bits_take: "bits self (take n bs) = take n (bits self bs)"
  by (induction bs arbitrary: self n) (simp_all add: take_Cons split: nat.splits)

lemma bits_drop: "bits (run self (take n bs)) (drop n bs) = drop n (bits self bs)"
  by (induction bs arbitrary: self n) (simp_all add: take_Cons drop_Cons split: nat.splits)

lemma enc_nth:
  "j < length bs div 8 \<Longrightarrow>
   enc self bs ! j = word_of_int (pack 0 (take 8 (drop (8 * j) (bits self bs))) AND 255)"
proof (induction j arbitrary: self bs)
  case 0
  then have "8 \<le> length bs" by simp
  then show ?case by (simp add: enc_long bits_take)
next
  case (Suc j)
  then have len: "8 \<le> length bs" and rest: "j < length (drop 8 bs) div 8" by simp_all
  have "enc self bs ! Suc j = enc (run self (take 8 bs)) (drop 8 bs) ! j"
    using len by (simp add: enc_long)
  also have "\<dots> = word_of_int
      (pack 0 (take 8 (drop (8 * j) (bits (run self (take 8 bs)) (drop 8 bs)))) AND 255)"
    using rest by (rule Suc.IH)
  also have "drop (8 * j) (bits (run self (take 8 bs)) (drop 8 bs))
      = drop (8 * Suc j) (bits self bs)"
    by (simp add: bits_drop add.commute)
  finally show ?case .
qed

lemma compress_short: "length pcm < 8 \<Longrightarrow> compress_pcm_s8_to_dfpwm self pcm = Inr ([], self)"
  by (simp add: compress_pcm_s8_to_dfpwm_def while_loop.simps)

lemma compress_Inr_PREC:
  assumes "compress_pcm_s8_to_dfpwm self pcm = Inr (out, self')" and "out \<noteq> []"
  shows "1 \<le> RESP_PREC self"
proof (rule ccontr)
  assume "\<not> 1 \<le> RESP_PREC self"
  then have f: "RESP_PREC self < 1" by simp
  show False
  proof (cases "length pcm < 8")
    case True
    with assms compress_short [OF True, of self] show False by simp
  next
    case False
    then have "8 \<le> length pcm" by simp
    with f have "compress_pcm_s8_to_dfpwm self pcm = Inl ValueError" by (rule compress_fail)
    with assms(1) show False by simp
  qed
qed

lemma compress_bit:
  assumes c: "compress_pcm_s8_to_dfpwm self pcm = Inr (out, self')"
    and j: "j < length out" and i: "i < 8"
  shows "bit (out ! j) i \<longleftrightarrow> bits self pcm ! (8 * j + i)"
proof -
  from j have "out \<noteq> []" by auto
  with c have p: "1 \<le> RESP_PREC self" by (rule compress_Inr_PREC)
  let ?m = "8 * (length pcm div 8)"
  let ?B = "bits self pcm"
  let ?cs = "take 8 (drop (8 * j) (take ?m ?B))"
  have out: "out = enc self (take ?m pcm)" using c compress_eq [OF p, of pcm] by simp
  have lo: "length out = length pcm div 8" unfolding out by (simp add: length_enc)
  with j have jm: "8 * j + 8 \<le> ?m" by simp
  have mle: "?m \<le> length pcm" by simp
  have "out ! j = word_of_int (pack 0 (take 8 (drop (8 * j) (bits self (take ?m pcm)))) AND 255)"
    unfolding out using j lo by (intro enc_nth) simp
  then have byte: "out ! j = word_of_int (pack 0 ?cs AND 255)" by (simp only: bits_take)
  have lcs: "length ?cs = 8" using jm mle by simp
  have nth: "?cs ! i = ?B ! (8 * j + i)" using jm mle i by simp
  from bit_byte_of_pack [OF lcs i] byte nth show ?thesis by simp
qed

section \<open>The encoder on signed samples\<close>

lemma curbit_of_decide: "curbit_of self b = decide self (sint b)"
  by (simp add: curbit_of_def decide_def inlevel_of_sint)

lemma feed_feed_sample: "feed self b = feed_sample self (sint b)"
  by (simp add: feed_def feed_sample_def curbit_of_decide)

lemma run_run_samples: "run self bs = run_samples self (map sint bs)"
  unfolding run_def run_samples_def
  by (induction bs arbitrary: self) (simp_all add: feed_feed_sample)

lemma bits_sample_bits: "bits self bs = sample_bits self (map sint bs)"
  by (induction bs arbitrary: self) (simp_all add: curbit_of_decide feed_feed_sample)

lemma enc_encode_samples: "enc self bs = encode_samples self (map sint bs)"
proof (induction self bs rule: enc.induct)
  case (1 self bs)
  show ?case
  proof (cases "length bs < 8")
    case True
    then show ?thesis by (simp add: enc_short encode_samples.simps)
  next
    case False
    then have IH: "enc (run self (take 8 bs)) (drop 8 bs)
        = encode_samples (run self (take 8 bs)) (map sint (drop 8 bs))"
      by (rule "1.IH")
    have l: "\<not> length (map sint bs) < 8" using False by simp
    have "encode_samples self (map sint bs)
        = word_of_int (pack 0 (sample_bits self (take 8 (map sint bs))) AND 255)
            # encode_samples (run_samples self (take 8 (map sint bs))) (drop 8 (map sint bs))"
      using l by (subst encode_samples.simps) simp
    also have "\<dots> = word_of_int (pack 0 (bits self (take 8 bs)) AND 255)
            # encode_samples (run self (take 8 bs)) (map sint (drop 8 bs))"
      by (simp add: take_map drop_map bits_sample_bits run_run_samples)
    finally show ?thesis using False IH by (simp add: enc_long)
  qed
qed

lemma enc_take_groups: "enc self (take (8 * (length bs div 8)) bs) = enc self bs"
proof -
  let ?m = "8 * (length bs div 8)"
  have l: "length (take ?m bs) = 8 * (length bs div 8)" by simp
  have "length (drop ?m bs) = length bs mod 8" by (simp add: minus_mult_div_eq_mod)
  then have s: "length (drop ?m bs) < 8" by simp
  have "enc self (take ?m bs @ drop ?m bs)
      = enc self (take ?m bs) @ enc (run self (take ?m bs)) (drop ?m bs)"
    using l by (rule enc_append)
  then show ?thesis using s by (simp add: enc_short)
qed

lemma compress_signed:
  assumes "1 \<le> RESP_PREC self"
  shows "compress_pcm_s8_to_dfpwm self pcm =
     Inr (encode_samples self (map sint pcm),
          run_samples self (map sint (take (8 * (length pcm div 8)) pcm)))"
  unfolding compress_eq [OF assms] enc_take_groups
  by (simp only: enc_encode_samples run_run_samples)

lemma sint_word_of_int_s8:
  assumes "- 128 \<le> s" "s \<le> 127"
  shows "sint (word_of_int s :: 8 word) = s"
proof -
  have "sint (word_of_int s :: 8 word) = signed_take_bit 7 s" by (simp add: sint_sbintrunc')
  also have "\<dots> = s" using assms by (intro signed_take_bit_int_eq_self) simp_all
  finally show ?thesis .
qed

lemma map_sint_word_of_int:
  "(\<forall>s \<in> set ss. - 128 \<le> s \<and> s \<le> 127) \<Longrightarrow> map sint (map word_of_int ss :: bytes) = ss"
  by (induction ss) (simp_all add: sint_word_of_int_s8)

lemma compress_of_samples:
  assumes "1 \<le> RESP_PREC self" and "\<forall>s \<in> set ss. - 128 \<le> s \<and> s \<le> 127"
  shows "compress_pcm_s8_to_dfpwm self (map word_of_int ss) =
     Inr (encode_samples self ss, run_samples self (take (8 * (length ss div 8)) ss))"
proof -
  have m: "map sint (map word_of_int ss :: bytes) = ss" using assms(2) by (rule map_sint_word_of_int)
  have "map sint (take (8 * (length ss div 8)) (map word_of_int ss :: bytes))
      = take (8 * (length ss div 8)) (map sint (map word_of_int ss :: bytes))"
    by (simp only: take_map)
  then have t: "map sint (take (8 * (length (map word_of_int ss :: bytes) div 8)) (map word_of_int ss :: bytes))
      = take (8 * (length ss div 8)) ss"
    by (simp only: m length_map)
  show ?thesis unfolding compress_signed [OF assms(1)] m t ..
qed

section \<open>Output length and totality\<close>

text \<open>
  Claim C2. On a codec whose precision constant is at least 1 (the constructor sets it to
  10 or 8), encoding a byte sequence of any length \<open>L\<close> raises no exception and returns
  exactly \<open>L div 8\<close> bytes. The trailing \<open>L mod 8\<close> samples are dropped: the bytes and
  the codec left behind are those of encoding the first \<open>8 * (L div 8)\<close> samples only,
  so nothing of the tail reaches a later call. For \<open>L < 8\<close> the output is empty and the
  codec is untouched.
\<close>

theorem encode_total_length:
  assumes "1 \<le> RESP_PREC self"
  shows "\<exists>out self'.
    compress_pcm_s8_to_dfpwm self pcm_s8 = Inr (out, self') \<and>
    length out = length pcm_s8 div 8 \<and>
    compress_pcm_s8_to_dfpwm self (take (8 * (length pcm_s8 div 8)) pcm_s8) = Inr (out, self') \<and>
    (length pcm_s8 < 8 \<longrightarrow> out = [] \<and> self' = self)"
proof -
  let ?m = "8 * (length pcm_s8 div 8)"
  let ?out = "enc self (take ?m pcm_s8)"
  let ?self' = "run self (take ?m pcm_s8)"
  have whole: "compress_pcm_s8_to_dfpwm self pcm_s8 = Inr (?out, ?self')"
    using assms by (rule compress_eq)
  have lt: "length (take ?m pcm_s8) = ?m" by simp
  have len: "length ?out = length pcm_s8 div 8"
    by (simp add: length_enc)
  have "compress_pcm_s8_to_dfpwm self (take ?m pcm_s8) =
      Inr (enc self (take (8 * (length (take ?m pcm_s8) div 8)) (take ?m pcm_s8)),
           run self (take (8 * (length (take ?m pcm_s8) div 8)) (take ?m pcm_s8)))"
    using assms by (rule compress_eq)
  then have cut: "compress_pcm_s8_to_dfpwm self (take ?m pcm_s8) = Inr (?out, ?self')"
    by (simp only: lt) simp
  have short: "length pcm_s8 < 8 \<longrightarrow> ?out = [] \<and> ?self' = self"
    by (simp add: enc_short)
  from whole len cut short show ?thesis by blast
qed

theorem encode_total_length_witness:
  "1 \<le> RESP_PREC (post_init True) \<and>
   (\<exists>out self'.
      compress_pcm_s8_to_dfpwm (post_init True) (replicate 19 127) = Inr (out, self') \<and>
      length out = 2 \<and>
      compress_pcm_s8_to_dfpwm (post_init True) (replicate 16 127) = Inr (out, self'))"
proof -
  have h: "1 \<le> RESP_PREC (post_init True)" by (simp add: post_init_def)
  from encode_total_length [OF h, of "replicate 19 127"] h show ?thesis by simp
qed

section \<open>The predictor level\<close>

text \<open>
  Claim C4. Whenever the context update returns, the new level is the old level plus
  \<open>q\<close>, where \<open>q\<close> is \<open>x = response * (target - level) + 2 ^ (RESP_PREC - 1)\<close>
  shifted right by \<open>RESP_PREC\<close>. The shift is floor division by \<open>2 ^ RESP_PREC\<close>:
  \<open>q * 2 ^ RESP_PREC \<le> x < (q + 1) * 2 ^ RESP_PREC\<close>, also for negative \<open>x\<close>
  (rounding toward minus infinity, not truncation). When the sum equals the old level and
  the level is not at the target, it is moved by one: up for a true bit, down for a false one.
\<close>

theorem level_update:
  assumes "ctx_update curbit self = Inr self'"
  shows "(let target = (if curbit then 127 else - 128);
              x = response self * (target - level self) + 2 ^ nat (RESP_PREC self - 1);
              q = x div 2 ^ nat (RESP_PREC self);
              nlevel = level self + q
          in q * 2 ^ nat (RESP_PREC self) \<le> x \<and> x < (q + 1) * 2 ^ nat (RESP_PREC self) \<and>
             level self' =
               (if nlevel = level self \<and> level self \<noteq> target
                then nlevel + (if curbit then 1 else - 1) else nlevel))"
proof -
  from ctx_update_Inr [OF assms] have p: "1 \<le> RESP_PREC self" and s: "self' = ctx_next curbit self"
    by simp_all
  define k :: int where "k = 2 ^ nat (RESP_PREC self)"
  have pos: "0 < k" by (simp add: k_def)
  have lo: "x div k * k \<le> x" and hi: "x < (x div k + 1) * k" for x :: int
  proof -
    have e: "x = x div k * k + x mod k" by simp
    have m: "0 \<le> x mod k" "x mod k < k" using pos by simp_all
    from e m show "x div k * k \<le> x" by linarith
    have "(x div k + 1) * k = x div k * k + k" by (simp add: algebra_simps)
    with e m show "x < (x div k + 1) * k" by linarith
  qed
  show ?thesis
    using lo hi unfolding k_def by (simp add: Let_def s level_ctx_next [OF p])
qed

theorem level_update_witness:
  "ctx_update False (post_init True\<lparr>response := 8, level := 100\<rparr>)
     = Inr (post_init True\<lparr>response := 9, level := 98\<rparr>) \<and>
   (8 * (- 128 - 100) + 512) div 1024 = (- 2 :: int) \<and>
   level (post_init True\<lparr>response := 9, level := 98\<rparr>) = 100 + (8 * (- 128 - 100) + 512) div 1024"
proof -
  have u: "ctx_update False (post_init True\<lparr>response := 8, level := 100\<rparr>)
     = Inr (post_init True\<lparr>response := 9, level := 98\<rparr>)"
    by (simp add: ctx_update_def post_init_def Let_def)
  from level_update [OF u] u show ?thesis by (simp add: post_init_def Let_def)
qed

text \<open>
  Claim C9. In either mode, every codec reachable from a freshly constructed one, through
  any number of per-sample updates on any buffers, has its level in \<open>[-128, 127]\<close>.
\<close>

theorem level_stays_in_range:
  assumes "reachable nd self"
  shows "- 128 \<le> level self \<and> level self \<le> 127"
  using reachable_in_range [OF assms] by (simp add: in_range_def)

theorem level_stays_in_range_witness:
  "reachable False (post_init False\<lparr>level := 1, lastbit := True\<rparr>) \<and>
   - 128 \<le> level (post_init False\<lparr>level := 1, lastbit := True\<rparr>) \<and>
   level (post_init False\<lparr>level := 1, lastbit := True\<rparr>) \<le> 127"
proof -
  have "sample_step [100] (0, 0, post_init False) =
      Inr (1, 128, post_init False\<lparr>level := 1, lastbit := True\<rparr>)"
    by (simp add: sample_step_def ctx_update_def post_init_def Let_def)
  with reachable.fresh [of False]
  have r: "reachable False (post_init False\<lparr>level := 1, lastbit := True\<rparr>)"
    by (rule reachable.sample)
  from level_stays_in_range [OF r] r show ?thesis by simp
qed

section \<open>The response\<close>

text \<open>
  Claim C5. On a codec with precision 10 (the current mode), every context update, and so
  every per-sample update, leaves a response of at least \<open>8 = 2 * 2 ^ (10 - 8)\<close> and
  keeps the precision at 10: from the first update on, the response is never below 8.
\<close>

theorem response_floor:
  assumes "RESP_PREC self = 10"
  shows "(\<forall>curbit self'. ctx_update curbit self = Inr self' \<longrightarrow>
            8 \<le> response self' \<and> RESP_PREC self' = 10) \<and>
         (\<forall>pcm_s8 idx d idx' d' self'.
            sample_step pcm_s8 (idx, d, self) = Inr (idx', d', self') \<longrightarrow>
            8 \<le> response self' \<and> RESP_PREC self' = 10) \<and>
         2 * 2 ^ nat (RESP_PREC self - 8) = (8::int)"
proof -
  have one: "8 \<le> response (ctx_next c self) \<and> RESP_PREC (ctx_next c self) = 10" for c
    using assms by (simp add: ctx_next_def ctx_update_def Let_def push_bit_eq_mult)
  have a: "8 \<le> response self' \<and> RESP_PREC self' = 10"
    if "ctx_update curbit self = Inr self'" for curbit self'
    using ctx_update_Inr [OF that] one by simp
  have b: "8 \<le> response self' \<and> RESP_PREC self' = 10"
    if "sample_step pcm_s8 (idx, d, self) = Inr (idx', d', self')" for pcm_s8 idx d idx' d' self'
    using sample_step_Inr [OF that] one by (simp add: feed_def)
  have c: "2 * 2 ^ nat (RESP_PREC self - 8) = (8::int)" using assms by simp
  from a b c show ?thesis by blast
qed

theorem response_floor_witness:
  "RESP_PREC (post_init True) = 10 \<and>
   ctx_update False (post_init True) = Inr (post_init True\<lparr>response := 8, level := - 1\<rparr>) \<and>
   8 \<le> response (post_init True\<lparr>response := 8, level := - 1\<rparr>)"
proof -
  have h: "RESP_PREC (post_init True) = 10" by (simp add: post_init_def)
  have u: "ctx_update False (post_init True) = Inr (post_init True\<lparr>response := 8, level := - 1\<rparr>)"
    by (simp add: ctx_update_def post_init_def Let_def)
  from response_floor [OF h] u h show ?thesis by simp
qed

text \<open>
  Claim C1, as stated, fails. It says that in current mode the response is only clamped to
  its floor and never stepped. After the first sample of a session (a false bit from the
  fresh codec) the response is 8 and the level is -1; a second false bit leaves the
  response at 9, not at \<open>max 8 8\<close>: lines 104 and 105 of the source move the response by
  one toward its target in both modes.
\<close>

theorem response_unchanged_counterexample:
  "mode_consts True (post_init True\<lparr>response := 8, level := - 1\<rparr>) \<and>
   ctx_update False (post_init True\<lparr>response := 8, level := - 1\<rparr>)
     = Inr (post_init True\<lparr>response := 9, level := - 2\<rparr>) \<and>
   response (post_init True\<lparr>response := 9, level := - 2\<rparr>)
     \<noteq> max 8 (response (post_init True\<lparr>response := 8, level := - 1\<rparr>))"
  by (simp add: ctx_update_def post_init_def mode_consts_def Let_def)

text \<open>
  Claim C1, amended. In current mode the adaptation of lines 99 to 102 leaves the response
  as it is, and the step of lines 104 and 105 then moves it by one toward its target:
  up by one when the bit equals the last bit and the response is not 1023, down by one
  when the bit differs and the response is not 0, unchanged otherwise. The result is
  clamped to be at least 8.
\<close>

theorem response_current_mode:
  assumes "mode_consts True self" and "ctx_update curbit self = Inr self'"
  shows "response self' =
     max 8 (if curbit = lastbit self
            then (if response self = 1023 then response self else response self + 1)
            else (if response self = 0 then response self else response self - 1))"
  using ctx_update_Inr [OF assms(2)] response_ctx_next_new [OF assms(1), of curbit] by simp

theorem response_current_mode_witness:
  "mode_consts True (post_init True\<lparr>response := 8, level := - 1\<rparr>) \<and>
   ctx_update False (post_init True\<lparr>response := 8, level := - 1\<rparr>)
     = Inr (post_init True\<lparr>response := 9, level := - 2\<rparr>) \<and>
   response (post_init True\<lparr>response := 9, level := - 2\<rparr>) = 9"
proof -
  have m: "mode_consts True (post_init True\<lparr>response := 8, level := - 1\<rparr>)"
    by (simp add: post_init_def mode_consts_def)
  have u: "ctx_update False (post_init True\<lparr>response := 8, level := - 1\<rparr>)
     = Inr (post_init True\<lparr>response := 9, level := - 2\<rparr>)"
    by (simp add: ctx_update_def post_init_def Let_def)
  from response_current_mode [OF m u] m u show ?thesis by (simp add: post_init_def)
qed

section \<open>The decision bit and the reading of bytes\<close>

text \<open>
  Claim C3. For a sample in range of the buffer and a codec on which the context update
  does not fail, the loop body decides the bit \<open>sample > level\<close>, or \<open>sample = level\<close>
  and \<open>level = 127\<close>, where \<open>sample\<close> is the byte read as a signed value: that bit is what
  is shifted into \<open>d\<close> and what the codec remembers as its last bit. In particular a first
  sample 0 on a freshly constructed codec (level 0) decides the bit false.
\<close>

theorem decision_bit:
  assumes "1 \<le> RESP_PREC self" and "idx < length pcm_s8"
  shows "(let sample = sint (pcm_s8 ! idx);
              curbit = (sample > level self \<or> (sample = level self \<and> level self = 127))
          in \<exists>self'. sample_step pcm_s8 (idx, d, self)
                        = Inr (idx + 1, drop_bit 1 d + (if curbit then 128 else 0), self')
                    \<and> lastbit self' = curbit)
         \<and> (\<exists>self'. sample_step (0 # rest) (0, 0, post_init nd) = Inr (1, 0, self')
                    \<and> lastbit self' = False)"
proof -
  let ?bit = "sint (pcm_s8 ! idx) > level self
                \<or> (sint (pcm_s8 ! idx) = level self \<and> level self = 127)"
  have u: "ctx_update ?bit self = Inr (ctx_next ?bit self)"
    using assms(1) by (rule ctx_update_total)
  have a: "sample_step pcm_s8 (idx, d, self)
      = Inr (idx + 1, drop_bit 1 d + (if ?bit then 128 else 0), ctx_next ?bit self)"
    using assms(2) u by (simp add: sample_step_sint Let_def)
  have b: "lastbit (ctx_next ?bit self) = ?bit"
    using assms(1) by (rule lastbit_ctx_next)
  have p: "1 \<le> RESP_PREC (post_init nd)" by (simp add: post_init_def)
  have c: "sample_step (0 # rest) (0, 0, post_init nd) = Inr (1, 0, ctx_next False (post_init nd))"
    using ctx_update_total [OF p, of False]
    by (simp add: sample_step_def Let_def) (simp add: post_init_def)
  have e: "lastbit (ctx_next False (post_init nd)) = False"
    using p by (rule lastbit_ctx_next)
  from a b c e show ?thesis unfolding Let_def by blast
qed

theorem decision_bit_witness:
  "1 \<le> RESP_PREC (post_init True\<lparr>level := 127\<rparr>) \<and> (0::nat) < length [127 :: 8 word] \<and>
   sint ([127 :: 8 word] ! 0) = level (post_init True\<lparr>level := 127\<rparr>) \<and>
   (\<exists>self'. sample_step [127] (0, 0, post_init True\<lparr>level := 127\<rparr>) = Inr (1, 128, self')
       \<and> lastbit self' = True)"
proof -
  have h1: "1 \<le> RESP_PREC (post_init True\<lparr>level := 127\<rparr>)" by (simp add: post_init_def)
  have h2: "(0::nat) < length [127 :: 8 word]" by simp
  from decision_bit [OF h1 h2, of 0] h1 show ?thesis
    by (simp add: post_init_def Let_def)
qed

text \<open>
  Claim C10. The loop body reads each byte \<open>b\<close> as \<open>inlevel_of b\<close>, which is the two's
  complement value of the byte: \<open>b - 256\<close>, between -128 and -1, for \<open>b\<close> from 128 to 255.
  So every byte string is accepted, by a freshly constructed codec and by any codec a
  session has reached, and what a call returns for a byte string is what the encoder on
  signed samples gives for the signed values of its bytes: the same output bytes and the
  same final codec. Conversely, for a sequence of signed samples in \<open>[-128, 127]\<close>, the
  call on the bytes that stand for them returns the encoding of exactly those samples.
\<close>

theorem bytes_as_signed:
  "inlevel_of b = sint b \<and>
   (128 \<le> uint b \<longrightarrow> inlevel_of b = uint b - 256 \<and> - 128 \<le> inlevel_of b \<and> inlevel_of b \<le> - 1) \<and>
   (\<forall>idx d self. idx < length pcm_s8 \<longrightarrow>
      sample_step pcm_s8 (idx, d, self) =
        (let inlevel = inlevel_of (pcm_s8 ! idx);
             curbit = (inlevel > level self \<or> (inlevel = level self \<and> level self = 127))
         in case ctx_update curbit self of
              Inl e \<Rightarrow> Inl e
            | Inr self' \<Rightarrow> Inr (idx + 1, drop_bit 1 d + (if curbit then 128 else 0), self'))) \<and>
   (\<exists>out self'. compress_pcm_s8_to_dfpwm (post_init nd) pcm_s8 = Inr (out, self')) \<and>
   ((\<forall>s \<in> set samples. - 128 \<le> s \<and> s \<le> 127) \<longrightarrow>
      map inlevel_of (map word_of_int samples) = samples) \<and>
   (1 \<le> RESP_PREC codec \<longrightarrow>
      compress_pcm_s8_to_dfpwm codec pcm_s8 =
        Inr (encode_samples codec (map sint pcm_s8),
             run_samples codec (map sint (take (8 * (length pcm_s8 div 8)) pcm_s8)))) \<and>
   (1 \<le> RESP_PREC codec \<and> (\<forall>s \<in> set samples. - 128 \<le> s \<and> s \<le> 127) \<longrightarrow>
      compress_pcm_s8_to_dfpwm codec (map word_of_int samples) =
        Inr (encode_samples codec samples,
             run_samples codec (take (8 * (length samples div 8)) samples)))"
proof -
  have a: "inlevel_of b = sint b" by (rule inlevel_of_sint)
  have b: "128 \<le> uint b \<longrightarrow> inlevel_of b = uint b - 256 \<and> - 128 \<le> inlevel_of b \<and> inlevel_of b \<le> - 1"
    using inlevel_of_range [of b] uint_bounded [of b] by (simp add: inlevel_of_def)
  have c: "sample_step pcm_s8 (idx, d, self) =
        (let inlevel = inlevel_of (pcm_s8 ! idx);
             curbit = (inlevel > level self \<or> (inlevel = level self \<and> level self = 127))
         in case ctx_update curbit self of
              Inl e \<Rightarrow> Inl e
            | Inr self' \<Rightarrow> Inr (idx + 1, drop_bit 1 d + (if curbit then 128 else 0), self'))"
    if "idx < length pcm_s8" for idx d self
    using that by (simp add: sample_step_sint inlevel_of_sint)
  have p: "1 \<le> RESP_PREC (post_init nd)" by (simp add: post_init_def)
  have d: "\<exists>out self'. compress_pcm_s8_to_dfpwm (post_init nd) pcm_s8 = Inr (out, self')"
    using compress_eq [OF p] by blast
  have e: "(\<forall>s \<in> set samples. - 128 \<le> s \<and> s \<le> 127) \<longrightarrow>
      map inlevel_of (map word_of_int samples) = samples"
    by (induction samples) (simp_all add: inlevel_of_sint sint_word_of_int_s8)
  have f: "1 \<le> RESP_PREC codec \<longrightarrow>
      compress_pcm_s8_to_dfpwm codec pcm_s8 =
        Inr (encode_samples codec (map sint pcm_s8),
             run_samples codec (map sint (take (8 * (length pcm_s8 div 8)) pcm_s8)))"
    using compress_signed by blast
  have g: "1 \<le> RESP_PREC codec \<and> (\<forall>s \<in> set samples. - 128 \<le> s \<and> s \<le> 127) \<longrightarrow>
      compress_pcm_s8_to_dfpwm codec (map word_of_int samples) =
        Inr (encode_samples codec samples,
             run_samples codec (take (8 * (length samples div 8)) samples))"
    using compress_of_samples by blast
  from a b c d e f g show ?thesis by blast
qed

theorem bytes_as_signed_witness:
  "inlevel_of 200 = - 56 \<and> (128::int) \<le> uint (200 :: 8 word) \<and>
   (\<exists>self'. sample_step [200, 10, 200, 10, 200, 10, 200, 10, 7] (0, 0, post_init True)
               = Inr (1, 0, self')) \<and>
   map inlevel_of (map word_of_int [- 56, 10, - 56, 10, - 56, 10, - 56, 10, 7])
     = [- 56, 10, - 56, 10, - 56, 10, - 56, 10, 7] \<and>
   1 \<le> RESP_PREC (post_init True\<lparr>response := 8, level := - 1\<rparr>) \<and>
   map sint [200, 10, 200, 10, 200, 10, 200, 10, 7 :: 8 word]
     = [- 56, 10, - 56, 10, - 56, 10, - 56, 10, 7] \<and>
   encode_samples (post_init True\<lparr>response := 8, level := - 1\<rparr>)
       [- 56, 10, - 56, 10, - 56, 10, - 56, 10, 7] = [170] \<and>
   compress_pcm_s8_to_dfpwm (post_init True\<lparr>response := 8, level := - 1\<rparr>)
       [200, 10, 200, 10, 200, 10, 200, 10, 7]
     = Inr ([170], run_samples (post_init True\<lparr>response := 8, level := - 1\<rparr>)
                     [- 56, 10, - 56, 10, - 56, 10, - 56, 10]) \<and>
   compress_pcm_s8_to_dfpwm (post_init True\<lparr>response := 8, level := - 1\<rparr>)
       (map word_of_int [- 56, 10, - 56, 10, - 56, 10, - 56, 10, 7])
     = Inr ([170], run_samples (post_init True\<lparr>response := 8, level := - 1\<rparr>)
                     [- 56, 10, - 56, 10, - 56, 10, - 56, 10])"
proof -
  let ?S = "post_init True\<lparr>response := 8, level := - 1\<rparr>"
  let ?P = "[200, 10, 200, 10, 200, 10, 200, 10, 7] :: bytes"
  let ?SS = "[- 56, 10, - 56, 10, - 56, 10, - 56, 10, 7] :: int list"
  have h1: "1 \<le> RESP_PREC ?S" by (simp add: post_init_def)
  have h2: "\<forall>s \<in> set ?SS. - 128 \<le> s \<and> s \<le> 127" by simp
  have ev: "encode_samples ?S ?SS = [170]" by code_simp
  have ms: "map sint ?P = ?SS" by simp
  have u: "ctx_update False (post_init True) = Inr (ctx_next False (post_init True))"
    by (rule ctx_update_total) (simp add: post_init_def)
  have l: "level (post_init True) = 0" by (simp add: post_init_def)
  have t: "take (8 * (length ?P div 8)) ?P = [200, 10, 200, 10, 200, 10, 200, 10]" by simp
  have t': "take (8 * (length ?SS div 8)) ?SS = [- 56, 10, - 56, 10, - 56, 10, - 56, 10]" by simp
  note inst = bytes_as_signed [of 200 ?P True ?SS ?S]
  from inst h1 have c1: "compress_pcm_s8_to_dfpwm ?S ?P =
      Inr (encode_samples ?S (map sint ?P), run_samples ?S (map sint (take (8 * (length ?P div 8)) ?P)))"
    by blast
  from inst h1 h2 have c2: "compress_pcm_s8_to_dfpwm ?S (map word_of_int ?SS) =
      Inr (encode_samples ?S ?SS, run_samples ?S (take (8 * (length ?SS div 8)) ?SS))"
    by blast
  from inst h2 have c3: "map inlevel_of (map word_of_int ?SS) = ?SS" by blast
  from inst have c4: "inlevel_of 200 = sint (200 :: 8 word)" by blast
  from inst have "sample_step ?P (0, 0, post_init True) =
        (let inlevel = inlevel_of (?P ! 0);
             curbit = (inlevel > level (post_init True)
                        \<or> (inlevel = level (post_init True) \<and> level (post_init True) = 127))
         in case ctx_update curbit (post_init True) of
              Inl e \<Rightarrow> Inl e
            | Inr self' \<Rightarrow> Inr (0 + 1, drop_bit 1 0 + (if curbit then 128 else 0), self'))"
    by simp
  then have c5: "\<exists>self'. sample_step ?P (0, 0, post_init True) = Inr (1, 0, self')"
    using c4 u l by (simp add: Let_def)
  have c1': "compress_pcm_s8_to_dfpwm ?S ?P
      = Inr ([170], run_samples ?S [- 56, 10, - 56, 10, - 56, 10, - 56, 10])"
    unfolding c1 t by (simp only: ms ev) simp
  have c2': "compress_pcm_s8_to_dfpwm ?S (map word_of_int ?SS)
      = Inr ([170], run_samples ?S [- 56, 10, - 56, 10, - 56, 10, - 56, 10])"
    unfolding c2 t' by (simp only: ev)
  have c6: "(128::int) \<le> uint (200 :: 8 word)" by simp
  have c7: "inlevel_of 200 = - 56" using c4 by simp
  from c7 c6 c5 c3 h1 ms ev c1' c2' show ?thesis by blast
qed

section \<open>Constant extreme inputs\<close>

text \<open>
  Claim C8. On a freshly constructed codec of either mode, a constant input of sample 127
  of any length \<open>L\<close> is encoded as \<open>L div 8\<close> bytes that are all \<open>0xFF\<close>, and a
  constant input of sample -128 (the byte \<open>0x80\<close>) as \<open>L div 8\<close> bytes that are all
  \<open>0x00\<close>. The index from which the output is steady is therefore 0: since the level
  never leaves \<open>[-128, 127]\<close>, a sample 127 always decides a true bit and a sample -128
  always a false one.
\<close>

theorem constant_extremes:
  "\<exists>s1 s2.
     compress_pcm_s8_to_dfpwm (post_init nd) (replicate L 127)
       = Inr (replicate (L div 8) 255, s1) \<and>
     compress_pcm_s8_to_dfpwm (post_init nd) (replicate L (- 128))
       = Inr (replicate (L div 8) 0, s2)"
proof -
  have p: "1 \<le> RESP_PREC (post_init nd)" by (simp add: post_init_def)
  have r: "in_range nd (post_init nd)" by (rule in_range_post_init)
  have hi: "enc (post_init nd) (replicate k 127) = replicate (k div 8) (word_of_int 255)" for k
    using r by (rule enc_replicate [rotated]) (simp add: bits_max pack_all_True)
  have lo: "enc (post_init nd) (replicate k 128) = replicate (k div 8) (word_of_int 0)" for k
    using r by (rule enc_replicate [rotated]) (simp add: bits_min pack_all_False)
  have m: "(- 128 :: 8 word) = 128" by simp
  have tk: "take (8 * (length (replicate L b) div 8)) (replicate L b) = replicate (8 * (L div 8)) b"
    for b :: "8 word"
    by (simp add: min_def)
  have "compress_pcm_s8_to_dfpwm (post_init nd) (replicate L 127)
       = Inr (replicate (L div 8) 255,
              run (post_init nd) (take (8 * (L div 8)) (replicate L 127)))"
    unfolding compress_eq [OF p] tk by (simp add: hi)
  moreover have "compress_pcm_s8_to_dfpwm (post_init nd) (replicate L (- 128))
       = Inr (replicate (L div 8) 0,
              run (post_init nd) (take (8 * (L div 8)) (replicate L (- 128))))"
    unfolding m compress_eq [OF p] tk by (simp add: lo)
  ultimately show ?thesis by blast
qed

section \<open>State carried across calls\<close>

text \<open>
  Claim C6. For every buffer of 16 samples and every codec, one call on the 16 samples
  returns what two calls do, the first on samples 0 to 7 and the second, on the codec the
  first call left, on samples 8 to 15: the same bytes, concatenated, and the same final
  codec (or the same exception). And there is a 16-sample buffer, eight samples 127
  followed by eight samples 0, whose encoding in one call on a fresh current-mode codec
  (bytes \<open>0xFF 0x40\<close>) differs from the encodings of its halves on two fresh codecs
  (bytes \<open>0xFF\<close> and \<open>0xAA\<close>).
\<close>

theorem chunk_continuity:
  "(length pcm_s8 = 16 \<longrightarrow>
      compress_pcm_s8_to_dfpwm self pcm_s8 =
        (case compress_pcm_s8_to_dfpwm self (take 8 pcm_s8) of
           Inl e \<Rightarrow> Inl e
         | Inr (out1, self1) \<Rightarrow>
             (case compress_pcm_s8_to_dfpwm self1 (drop 8 pcm_s8) of
                Inl e \<Rightarrow> Inl e
              | Inr (out2, self2) \<Rightarrow> Inr (out1 @ out2, self2)))) \<and>
   (\<exists>pcm out self' out1 self1 out2 self2.
      length pcm = 16 \<and>
      compress_pcm_s8_to_dfpwm (post_init True) pcm = Inr (out, self') \<and>
      compress_pcm_s8_to_dfpwm (post_init True) (take 8 pcm) = Inr (out1, self1) \<and>
      compress_pcm_s8_to_dfpwm (post_init True) (drop 8 pcm) = Inr (out2, self2) \<and>
      out \<noteq> out1 @ out2)"
proof
  show "length pcm_s8 = 16 \<longrightarrow>
      compress_pcm_s8_to_dfpwm self pcm_s8 =
        (case compress_pcm_s8_to_dfpwm self (take 8 pcm_s8) of
           Inl e \<Rightarrow> Inl e
         | Inr (out1, self1) \<Rightarrow>
             (case compress_pcm_s8_to_dfpwm self1 (drop 8 pcm_s8) of
                Inl e \<Rightarrow> Inl e
              | Inr (out2, self2) \<Rightarrow> Inr (out1 @ out2, self2)))"
    using compress_two_groups by blast
next
  let ?c = "compress_pcm_s8_to_dfpwm (post_init True)"
  let ?pcm = "replicate 8 127 @ replicate 8 0 :: bytes"
  have get: "\<exists>s. x = Inr (out, s)" if "map_sum id fst x = Inr out"
    for x :: "error + bytes \<times> DFPWMCodec" and out
    using that by (cases x) auto
  have "map_sum id fst (?c ?pcm) = Inr [255, 64]" by code_simp
  then obtain s where a: "?c ?pcm = Inr ([255, 64], s)" using get by blast
  have "map_sum id fst (?c (replicate 8 127)) = Inr [255]" by code_simp
  then obtain s1 where b: "?c (take 8 ?pcm) = Inr ([255], s1)" using get by fastforce
  have "map_sum id fst (?c (replicate 8 0)) = Inr [170]" by code_simp
  then obtain s2 where c: "?c (drop 8 ?pcm) = Inr ([170], s2)" using get by fastforce
  have "length ?pcm = 16" by simp
  moreover have "[255, 64] \<noteq> [255] @ [170 :: 8 word]" by simp
  ultimately show "\<exists>pcm out self' out1 self1 out2 self2.
      length pcm = 16 \<and>
      ?c pcm = Inr (out, self') \<and>
      ?c (take 8 pcm) = Inr (out1, self1) \<and>
      ?c (drop 8 pcm) = Inr (out2, self2) \<and>
      out \<noteq> out1 @ out2"
    using a b c by blast
qed

theorem chunk_continuity_witness:
  "length (replicate 16 5 :: bytes) = 16 \<and>
   compress_pcm_s8_to_dfpwm (post_init True) (replicate 16 5) =
     (case compress_pcm_s8_to_dfpwm (post_init True) (replicate 8 5) of
        Inl e \<Rightarrow> Inl e
      | Inr (out1, self1) \<Rightarrow>
          (case compress_pcm_s8_to_dfpwm self1 (replicate 8 5) of
             Inl e \<Rightarrow> Inl e
           | Inr (out2, self2) \<Rightarrow> Inr (out1 @ out2, self2)))"
proof -
  have l: "length (replicate 16 5 :: bytes) = 16" by simp
  have t: "take 8 (replicate 16 5 :: bytes) = replicate 8 5" by simp
  have d: "drop 8 (replicate 16 5 :: bytes) = replicate 8 5" by simp
  from chunk_continuity [of "replicate 16 5" "post_init True"] l show ?thesis
    by (simp only: t d)
qed

section \<open>Bit order of the output bytes\<close>

text \<open>
  Claim C7. Whenever a call returns, bit \<open>i\<close> of its output byte \<open>j\<close> is the bit
  decided for sample \<open>8 * j + i\<close> of the buffer: the first bit decided in a group of
  eight ends in bit 0 of the byte and the last one in bit 7. Each pass of the loop body
  on an accumulator \<open>d\<close> in \<open>[0, 255]\<close> sets it to \<open>(d >> 1) | (0x80 if bit else 0)\<close>,
  which the source writes with \<open>+\<close>, and keeps it in \<open>[0, 255]\<close>; the bit is the one the
  codec then holds as its last bit.
\<close>

theorem bit_packing:
  "(compress_pcm_s8_to_dfpwm self pcm_s8 = Inr (out, self') \<and> j < length out \<and> i < 8 \<longrightarrow>
      (bit (out ! j) i \<longleftrightarrow> bits self pcm_s8 ! (8 * j + i))) \<and>
   (0 \<le> d \<and> d < 256 \<and> sample_step pcm_s8 (idx, d, self) = Inr (idx', d', self1) \<longrightarrow>
      d' = drop_bit 1 d OR (if lastbit self1 then 128 else 0) \<and> 0 \<le> d' \<and> d' < 256)"
proof (intro conjI impI)
  assume "compress_pcm_s8_to_dfpwm self pcm_s8 = Inr (out, self') \<and> j < length out \<and> i < 8"
  then show "bit (out ! j) i \<longleftrightarrow> bits self pcm_s8 ! (8 * j + i)"
    using compress_bit by blast
next
  assume a: "0 \<le> d \<and> d < 256 \<and> sample_step pcm_s8 (idx, d, self) = Inr (idx', d', self1)"
  then have d: "0 \<le> d" "d < 256" by simp_all
  from a have st: "sample_step pcm_s8 (idx, d, self) = Inr (idx', d', self1)" by simp
  let ?c = "curbit_of self (pcm_s8 ! idx)"
  from sample_step_Inr [OF st] have p: "1 \<le> RESP_PREC self"
    and d': "d' = shift_in d ?c" and s1: "self1 = feed self (pcm_s8 ! idx)" by simp_all
  have l: "lastbit self1 = ?c" unfolding s1 feed_def using p by (rule lastbit_ctx_next)
  show "d' = drop_bit 1 d OR (if lastbit self1 then 128 else 0)"
    unfolding d' l using d by (rule shift_in_or)
  show "0 \<le> d'" "d' < 256" using shift_in_range [OF d, of ?c] d' by simp_all
qed

theorem bit_packing_witness:
  "(\<exists>self'. compress_pcm_s8_to_dfpwm (post_init True) (replicate 8 0) = Inr ([170], self')) \<and>
   (0::nat) < length [170 :: 8 word] \<and>
   bits (post_init True) (replicate 8 0) ! 1 \<and>
   (\<exists>self1. sample_step (replicate 8 0) (0, 255, post_init True) = Inr (1, 127, self1) \<and>
      (127::int) = drop_bit 1 255 OR (if lastbit self1 then 128 else 0))"
proof -
  have "map_sum id fst (compress_pcm_s8_to_dfpwm (post_init True) (replicate 8 0)) = Inr [170]"
    by code_simp
  then obtain s where c: "compress_pcm_s8_to_dfpwm (post_init True) (replicate 8 0) = Inr ([170], s)"
    by (cases "compress_pcm_s8_to_dfpwm (post_init True) (replicate 8 0)") auto
  have st: "sample_step (replicate 8 0) (0, 255, post_init True)
      = Inr (1, 127, post_init True\<lparr>response := 8, level := - 1\<rparr>)"
    by (simp add: sample_step_def ctx_update_def post_init_def Let_def drop_bit_eq_div)
  have b: "bit (170 :: 8 word) 1" by simp
  from bit_packing [of "post_init True" "replicate 8 0" "[170]" s 0 1 255 0 1 127
      "post_init True\<lparr>response := 8, level := - 1\<rparr>"] c st b
  show ?thesis by (simp add: post_init_def)
qed

end
